theory Spec2Isabelle
  imports Complex_Main
begin

section \<open>The navigation graph of \<^verbatim>\<open>navigation/Graph.h\<close>\<close>

text \<open>
  The class \<^verbatim>\<open>Graph\<close> keeps a vector of nodes (waypoints). A node knows its own
  index, its planar position, one link per cardinal direction and whether an object was
  seen at it. A link is the index of the neighbour, or one of two negative markers.

  Conventions of the embedding:
  \<^item> indices and links are C \<^verbatim>\<open>int\<close>s, modelled as \<^typ>\<open>int\<close>; the store is assumed
    to stay below \<open>2^31\<close> nodes, so that \<^verbatim>\<open>_nodes.size()\<close> fits the \<^verbatim>\<open>int\<close> it is
    assigned to;
  \<^item> coordinates and distances are \<^verbatim>\<open>float\<close>/\<^verbatim>\<open>double\<close> in the source and are modelled
    as \<^typ>\<open>real\<close>: NaN and overflow to infinity are not modelled; the infinity that the
    source uses as the initial minimum is a value of its own. Distances are computed
    exactly. The smoothing of coordinates is given twice: exactly (\<open>update_position\<close>,
    \<open>place_node\<close>, \<open>place_object\<close>) and with the rounding of the machine
    (\<open>update_position_float\<close>, \<open>place_node_float\<close>, \<open>place_object_float\<close>);
  \<^item> \<^verbatim>\<open>_nodes[i]\<close> outside the vector is undefined behaviour in C++; the model returns
    the error \<open>UndefinedBehaviour\<close> there instead of some arbitrary value;
  \<^item> \<^verbatim>\<open>_nodes.at(i)\<close> outside the vector throws \<^verbatim>\<open>std::out_of_range\<close>: the error
    \<open>OutOfRange\<close>;
  \<^item> logging (\<^verbatim>\<open>ROS_ERROR\<close>, \<^verbatim>\<open>ROS_INFO\<close>) has no effect on the state and is left out;
  \<^item> the two parameters, read through \<^verbatim>\<open>Parameter<T>\<close> in the source, are fields of the
    graph state;
  \<^item> a method is a function from the graph (and its arguments) to its result together with
    the graph as the method leaves it; the out-parameter of \<^verbatim>\<open>on_node\<close> is a result
    (\<open>on_node\<close>) when the caller's node is outside the store, and a write into the store
    (\<open>on_node_stored\<close>) when it is a stored node; the member \<^verbatim>\<open>_next_node_id\<close> is set by the
    constructor and never used again.
\<close>

subsection \<open>Data\<close>

text \<open>\<^verbatim>\<open>#define NAV_GRAPH_UNKNOWN -1\<close>, \<^verbatim>\<open>#define NAV_GRAPH_BLOCKED -2\<close>\<close>

definition NAV_GRAPH_UNKNOWN :: int where
  "NAV_GRAPH_UNKNOWN = -1"

definition NAV_GRAPH_BLOCKED :: int where
  "NAV_GRAPH_BLOCKED = -2"

text \<open>\<^verbatim>\<open>enum Directions { North = 0, East, South, West }\<close>; the methods take the direction as
  an \<^verbatim>\<open>int\<close>.\<close>

definition North :: int where "North = 0"
definition East :: int where "East = 1"
definition South :: int where "South = 2"
definition West :: int where "West = 3"

text \<open>The fields of \<^verbatim>\<open>navigation_msgs::Node\<close> that the graph reads or writes; the
  coordinates \<^verbatim>\<open>x\<close> and \<^verbatim>\<open>y\<close> are the fields \<open>node_x\<close> and \<open>node_y\<close>.\<close>

record node =
  id_this :: int
  node_x :: real
  node_y :: real
  id_north :: int
  id_east :: int
  id_south :: int
  id_west :: int
  object_here :: bool

text \<open>The fields of \<^verbatim>\<open>navigation_msgs::PlaceNodeRequest\<close> that the graph reads.\<close>

record request =
  north_blocked :: bool
  east_blocked :: bool
  south_blocked :: bool
  west_blocked :: bool
  id_previous :: int
  direction :: int
  object_x :: real
  object_y :: real
  object_direction :: int

record graph =
  nodes :: "node list"
  next_node_id :: int
  dist_thresh :: real
  update_positions :: bool

datatype error = OutOfRange | UndefinedBehaviour

text \<open>A distance that may be \<^verbatim>\<open>std::numeric_limits<...>::infinity()\<close>.\<close>

datatype dist = Finite real | Infinity

fun dist_less :: "dist \<Rightarrow> dist \<Rightarrow> bool" where
  "dist_less (Finite a) (Finite b) = (a < b)"
| "dist_less (Finite a) Infinity = True"
| "dist_less Infinity d = False"

fun dist_add :: "dist \<Rightarrow> real \<Rightarrow> dist" where
  "dist_add (Finite a) w = Finite (a + w)"
| "dist_add Infinity w = Infinity"

text \<open>The constructor \<^verbatim>\<open>Graph::Graph()\<close>: no nodes. The two parameters are read from
  the parameter server, with the defaults \<^verbatim>\<open>robot::dim::wheel_distance/2.0\<close> and
  \<^verbatim>\<open>false\<close>; the class \<^verbatim>\<open>Parameter\<close> and the constant belong to another package, so the
  values read are taken as arguments.\<close>

definition Graph :: "real \<Rightarrow> bool \<Rightarrow> graph" where
  "Graph thresh upd =
     \<lparr>nodes = [], next_node_id = 0, dist_thresh = thresh, update_positions = upd\<rparr>"

text \<open>A default-constructed message: every field zero.\<close>

definition default_node :: node where
  "default_node =
     \<lparr>id_this = 0, node_x = 0, node_y = 0, id_north = 0, id_east = 0, id_south = 0,
      id_west = 0, object_here = False\<rparr>"

text \<open>Whether \<open>i\<close> is an index of the vector.\<close>

definition in_bounds :: "'a list \<Rightarrow> int \<Rightarrow> bool" where
  "in_bounds xs i = (0 \<le> i \<and> i < int (length xs))"

subsection \<open>Links\<close>

text \<open>\<^verbatim>\<open>Graph::init_node\<close>\<close>

definition init_node :: "node \<Rightarrow> bool \<Rightarrow> bool \<Rightarrow> bool \<Rightarrow> bool \<Rightarrow> node" where
  "init_node n blocked_north blocked_east blocked_south blocked_west =
     n\<lparr>id_east := (if blocked_east then NAV_GRAPH_BLOCKED else NAV_GRAPH_UNKNOWN),
       id_north := (if blocked_north then NAV_GRAPH_BLOCKED else NAV_GRAPH_UNKNOWN),
       id_south := (if blocked_south then NAV_GRAPH_BLOCKED else NAV_GRAPH_UNKNOWN),
       id_west := (if blocked_west then NAV_GRAPH_BLOCKED else NAV_GRAPH_UNKNOWN),
       object_here := False\<rparr>"

text \<open>\<^verbatim>\<open>Graph::set_connected\<close>. The two references \<^verbatim>\<open>node\<close> and \<^verbatim>\<open>next\<close> are taken with
  \<^verbatim>\<open>operator[]\<close> before the switch; they may be the same element, so the second
  assignment is made on the result of the first. A direction outside the enum reaches the
  \<^verbatim>\<open>default\<close> branch, which logs and returns.\<close>

definition set_connected :: "graph \<Rightarrow> int \<Rightarrow> int \<Rightarrow> int \<Rightarrow> error + graph" where
  "set_connected g ident dir id_next =
     (if \<not> in_bounds (nodes g) ident \<or> \<not> in_bounds (nodes g) id_next then Inl UndefinedBehaviour
      else
        let ns = nodes g; a = nat ident; b = nat id_next in
        if dir = North then
          (let ns1 = ns[a := (ns ! a)\<lparr>id_north := id_next\<rparr>];
               ns2 = ns1[b := (ns1 ! b)\<lparr>id_south := ident\<rparr>]
           in Inr (g\<lparr>nodes := ns2\<rparr>))
        else if dir = East then
          (let ns1 = ns[a := (ns ! a)\<lparr>id_east := id_next\<rparr>];
               ns2 = ns1[b := (ns1 ! b)\<lparr>id_west := ident\<rparr>]
           in Inr (g\<lparr>nodes := ns2\<rparr>))
        else if dir = South then
          (let ns1 = ns[a := (ns ! a)\<lparr>id_south := id_next\<rparr>];
               ns2 = ns1[b := (ns1 ! b)\<lparr>id_north := ident\<rparr>]
           in Inr (g\<lparr>nodes := ns2\<rparr>))
        else if dir = West then
          (let ns1 = ns[a := (ns ! a)\<lparr>id_west := id_next\<rparr>];
               ns2 = ns1[b := (ns1 ! b)\<lparr>id_east := ident\<rparr>]
           in Inr (g\<lparr>nodes := ns2\<rparr>))
        else Inr g)"

text \<open>\<^verbatim>\<open>Graph::update_position\<close>, on the pair of coordinates it is given by reference.\<close>

definition update_position :: "graph \<Rightarrow> real \<times> real \<Rightarrow> real \<Rightarrow> real \<Rightarrow> real \<times> real" where
  "update_position g p new_x new_y =
     (if update_positions g
      then (0.3 * fst p + 0.7 * new_x, 0.3 * snd p + 0.7 * new_y)
      else p)"

subsection \<open>The arithmetic of \<^verbatim>\<open>update_position\<close> on the machine\<close>

text \<open>
  The assignment \<^verbatim>\<open>x = 0.3*x + 0.7*new_x\<close> has \<^verbatim>\<open>float\<close> operands and \<^verbatim>\<open>double\<close> literals:
  the literals are the doubles nearest to 0.3 and 0.7, each product and the sum are rounded
  to \<^verbatim>\<open>double\<close>, and the result is rounded to \<^verbatim>\<open>float\<close> when it is stored. Rounding is to
  nearest, ties to even, with a significand of 53 and of 24 bits. The exponent is not
  bounded here: overflow and subnormal numbers are left out.
\<close>

text \<open>The binary exponent of a positive number: \<open>2 powi expo x \<le> x < 2 powi (expo x + 1)\<close>.\<close>

function expo :: "real \<Rightarrow> int" where
  "expo x =
     (if x \<le> 0 then 0
      else if x < 1 then expo (2 * x) - 1
      else if 2 \<le> x then expo (x / 2) + 1
      else 0)"
  by pat_completeness auto

termination expo
proof (relation "measure (\<lambda>x. nat \<bar>\<lfloor>log 2 x\<rfloor>\<bar>)", goal_cases)
  case 1
  show ?case by simp
next
  case (2 x)
  then have x: "0 < x" "x < 1" by simp_all
  then have "log 2 (2 * x) = log 2 x + 1" by (simp add: log_mult)
  then have up: "\<lfloor>log 2 (2 * x)\<rfloor> = \<lfloor>log 2 x\<rfloor> + 1" by simp
  from x have "log 2 x < 0" by simp
  then have "\<lfloor>log 2 x\<rfloor> < 0" by (simp add: floor_less_iff)
  then have "nat \<bar>\<lfloor>log 2 x\<rfloor> + 1\<bar> < nat \<bar>\<lfloor>log 2 x\<rfloor>\<bar>" by linarith
  then show ?case by (simp only: in_measure up)
next
  case (3 x)
  then have x: "2 \<le> x" by simp
  then have "log 2 (x / 2) = log 2 x - 1" by (simp add: log_divide)
  then have down: "\<lfloor>log 2 (x / 2)\<rfloor> = \<lfloor>log 2 x\<rfloor> - 1" by simp
  from x have "1 \<le> log 2 x" by (simp add: le_log_iff)
  then have "1 \<le> \<lfloor>log 2 x\<rfloor>" by (simp add: le_floor_iff)
  then have "nat \<bar>\<lfloor>log 2 x\<rfloor> - 1\<bar> < nat \<bar>\<lfloor>log 2 x\<rfloor>\<bar>" by linarith
  then show ?case by (simp only: in_measure down)
qed

declare expo.simps [simp del]

text \<open>The nearest integer, ties to the even one.\<close>

definition round_half_even :: "real \<Rightarrow> int" where
  "round_half_even q =
     (let f = \<lfloor>q\<rfloor>; r = q - of_int f
      in if r < 1 / 2 then f else if 1 / 2 < r then f + 1 else if even f then f else f + 1)"

text \<open>The nearest number with a significand of \<open>p\<close> bits.\<close>

definition round_to :: "nat \<Rightarrow> real \<Rightarrow> real" where
  "round_to p x =
     (if x = 0 then 0
      else let ulp = 2 powi (expo \<bar>x\<bar> - int p + 1)
           in of_int (round_half_even (x / ulp)) * ulp)"

definition to_double :: "real \<Rightarrow> real" where
  "to_double = round_to 53"

definition to_float :: "real \<Rightarrow> real" where
  "to_float = round_to 24"

text \<open>The value that \<^verbatim>\<open>x = 0.3*x + 0.7*new_x\<close> stores in \<^verbatim>\<open>x\<close>.\<close>

definition blend_float :: "real \<Rightarrow> real \<Rightarrow> real" where
  "blend_float x new_x =
     to_float (to_double (to_double (to_double 0.3 * x) + to_double (to_double 0.7 * new_x)))"

text \<open>\<^verbatim>\<open>Graph::update_position\<close> with this arithmetic.\<close>

definition update_position_float :: "graph \<Rightarrow> real \<times> real \<Rightarrow> real \<Rightarrow> real \<Rightarrow> real \<times> real" where
  "update_position_float g p new_x new_y =
     (if update_positions g
      then (blend_float (fst p) new_x, blend_float (snd p) new_y)
      else p)"

subsection \<open>The nearest node\<close>

definition sq_dist :: "real \<Rightarrow> real \<Rightarrow> real \<Rightarrow> real \<Rightarrow> real" where
  "sq_dist x0 y0 x1 y1 = (x1 - x0) * (x1 - x0) + (y1 - y0) * (y1 - y0)"

text \<open>The loop of \<^verbatim>\<open>Graph::on_node\<close> over the rest of the vector: \<open>i\<close> is the index of the
  next element, \<open>closest\<close> and \<open>min_dist\<close> are the loop's variables.\<close>

fun on_node_loop :: "real \<Rightarrow> real \<Rightarrow> node list \<Rightarrow> nat \<Rightarrow> nat \<Rightarrow> dist \<Rightarrow> nat \<times> dist" where
  "on_node_loop x y [] i closest min_dist = (closest, min_dist)"
| "on_node_loop x y (n # ns) i closest min_dist =
     (let sq_d = sq_dist x y (node_x n) (node_y n) in
      if dist_less (Finite sq_d) min_dist
      then on_node_loop x y ns (i + 1) i (Finite sq_d)
      else on_node_loop x y ns (i + 1) closest min_dist)"

text \<open>\<^verbatim>\<open>Graph::on_node\<close>: the result \<open>Some n\<close> stands for \<^verbatim>\<open>true\<close> with the copy \<open>n\<close> written
  to the out-parameter, \<open>None\<close> for \<^verbatim>\<open>false\<close> with the out-parameter untouched. The graph is
  returned as the method leaves it.\<close>

definition on_node :: "graph \<Rightarrow> real \<Rightarrow> real \<Rightarrow> node option \<times> graph" where
  "on_node g x y =
     (let sq_dist_thresh = dist_thresh g * dist_thresh g;
          r = on_node_loop x y (nodes g) 0 0 Infinity
      in if dist_less (snd r) (Finite sq_dist_thresh)
         then (Some (nodes g ! fst r), g)
         else (None, g))"

text \<open>\<^verbatim>\<open>Graph::on_node\<close> when the caller's out-parameter is itself a node of the store, the
  one at index \<open>i\<close>: \<^verbatim>\<open>get_node\<close>, \<^verbatim>\<open>place_node\<close> and \<^verbatim>\<open>place_object\<close> return such
  references. The assignment \<^verbatim>\<open>node = _nodes[closest]\<close> then writes into the store. The
  result is the returned flag with the graph as the call leaves it.\<close>

definition on_node_stored :: "graph \<Rightarrow> real \<Rightarrow> real \<Rightarrow> nat \<Rightarrow> bool \<times> graph" where
  "on_node_stored g x y i =
     (let sq_dist_thresh = dist_thresh g * dist_thresh g;
          r = on_node_loop x y (nodes g) 0 0 Infinity
      in if dist_less (snd r) (Finite sq_dist_thresh)
         then (True, g\<lparr>nodes := (nodes g)[i := nodes g ! fst r]\<rparr>)
         else (False, g))"

subsection \<open>Placing nodes\<close>

text \<open>\<^verbatim>\<open>Graph::place_node\<close>. The method returns a reference to \<^verbatim>\<open>_nodes[node.id_this]\<close>;
  the model returns that element as it is when the method returns.\<close>

definition place_node :: "graph \<Rightarrow> real \<Rightarrow> real \<Rightarrow> request \<Rightarrow> error + (node \<times> graph)" where
  "place_node g x y req =
     (case on_node g x y of
        (None, g0) \<Rightarrow>
          let n0 = init_node default_node (north_blocked req) (east_blocked req)
                     (south_blocked req) (west_blocked req);
              n1 = n0\<lparr>node_x := x, node_y := y, id_this := int (length (nodes g0))\<rparr>;
              g1 = g0\<lparr>nodes := nodes g0 @ [n1]\<rparr>
          in if length (nodes g1) > 1
             then (case set_connected g1 (id_previous req) (direction req) (id_this n1) of
                     Inl e \<Rightarrow> Inl e
                   | Inr g2 \<Rightarrow> Inr (nodes g2 ! nat (id_this n1), g2))
             else Inr (nodes g1 ! nat (id_this n1), g1)
      | (Some n, g0) \<Rightarrow>
          if \<not> in_bounds (nodes g0) (id_this n) then Inl UndefinedBehaviour
          else
            let k = nat (id_this n);
                p = update_position g0 (node_x (nodes g0 ! k), node_y (nodes g0 ! k)) x y;
                g1 = g0\<lparr>nodes := (nodes g0)[k := (nodes g0 ! k)\<lparr>node_x := fst p, node_y := snd p\<rparr>]\<rparr>
            in Inr (nodes g1 ! k, g1))"

text \<open>\<^verbatim>\<open>Graph::place_object\<close>\<close>

definition place_object :: "graph \<Rightarrow> int \<Rightarrow> request \<Rightarrow> error + (node \<times> graph)" where
  "place_object g id_origin req =
     (case on_node g (object_x req) (object_y req) of
        (r, g0) \<Rightarrow>
          let has_neighbor = (r \<noteq> None);
              neighbor = (case r of Some n \<Rightarrow> n | None \<Rightarrow> default_node);
              created = (\<not> has_neighbor \<or> object_here neighbor = False);
              n = (if created
                   then (init_node default_node True True True True)
                          \<lparr>object_here := True, node_x := object_x req, node_y := object_y req,
                           id_this := int (length (nodes g0))\<rparr>
                   else neighbor)
          in if \<not> created \<and> \<not> in_bounds (nodes g0) (id_this n) then Inl UndefinedBehaviour
             else
               let g1 = (if created then g0\<lparr>nodes := nodes g0 @ [n]\<rparr>
                         else
                           let k = nat (id_this n);
                               p = update_position g0 (node_x (nodes g0 ! k), node_y (nodes g0 ! k))
                                     (object_x req) (object_y req)
                           in g0\<lparr>nodes := (nodes g0)[k := (nodes g0 ! k)\<lparr>node_x := fst p, node_y := snd p\<rparr>]\<rparr>)
               in (case set_connected g1 id_origin (object_direction req) (id_this n) of
                     Inl e \<Rightarrow> Inl e
                   | Inr g2 \<Rightarrow> Inr (nodes g2 ! nat (id_this n), g2)))"

text \<open>The two methods once more, with the machine arithmetic of \<^verbatim>\<open>update_position\<close>: they
  differ from \<open>place_node\<close> and \<open>place_object\<close> only in the coordinates that a merge
  stores.\<close>

definition place_node_float :: "graph \<Rightarrow> real \<Rightarrow> real \<Rightarrow> request \<Rightarrow> error + (node \<times> graph)" where
  "place_node_float g x y req =
     (case on_node g x y of
        (None, g0) \<Rightarrow>
          let n0 = init_node default_node (north_blocked req) (east_blocked req)
                     (south_blocked req) (west_blocked req);
              n1 = n0\<lparr>node_x := x, node_y := y, id_this := int (length (nodes g0))\<rparr>;
              g1 = g0\<lparr>nodes := nodes g0 @ [n1]\<rparr>
          in if length (nodes g1) > 1
             then (case set_connected g1 (id_previous req) (direction req) (id_this n1) of
                     Inl e \<Rightarrow> Inl e
                   | Inr g2 \<Rightarrow> Inr (nodes g2 ! nat (id_this n1), g2))
             else Inr (nodes g1 ! nat (id_this n1), g1)
      | (Some n, g0) \<Rightarrow>
          if \<not> in_bounds (nodes g0) (id_this n) then Inl UndefinedBehaviour
          else
            let k = nat (id_this n);
                p = update_position_float g0 (node_x (nodes g0 ! k), node_y (nodes g0 ! k)) x y;
                g1 = g0\<lparr>nodes := (nodes g0)[k := (nodes g0 ! k)\<lparr>node_x := fst p, node_y := snd p\<rparr>]\<rparr>
            in Inr (nodes g1 ! k, g1))"

definition place_object_float :: "graph \<Rightarrow> int \<Rightarrow> request \<Rightarrow> error + (node \<times> graph)" where
  "place_object_float g id_origin req =
     (case on_node g (object_x req) (object_y req) of
        (r, g0) \<Rightarrow>
          let has_neighbor = (r \<noteq> None);
              neighbor = (case r of Some n \<Rightarrow> n | None \<Rightarrow> default_node);
              created = (\<not> has_neighbor \<or> object_here neighbor = False);
              n = (if created
                   then (init_node default_node True True True True)
                          \<lparr>object_here := True, node_x := object_x req, node_y := object_y req,
                           id_this := int (length (nodes g0))\<rparr>
                   else neighbor)
          in if \<not> created \<and> \<not> in_bounds (nodes g0) (id_this n) then Inl UndefinedBehaviour
             else
               let g1 = (if created then g0\<lparr>nodes := nodes g0 @ [n]\<rparr>
                         else
                           let k = nat (id_this n);
                               p = update_position_float g0 (node_x (nodes g0 ! k), node_y (nodes g0 ! k))
                                     (object_x req) (object_y req)
                           in g0\<lparr>nodes := (nodes g0)[k := (nodes g0 ! k)\<lparr>node_x := fst p, node_y := snd p\<rparr>]\<rparr>)
               in (case set_connected g1 id_origin (object_direction req) (id_this n) of
                     Inl e \<Rightarrow> Inl e
                   | Inr g2 \<Rightarrow> Inr (nodes g2 ! nat (id_this n), g2)))"

text \<open>\<^verbatim>\<open>Graph::get_node\<close>: the test only logs; \<^verbatim>\<open>_nodes.at(id)\<close> converts \<open>id\<close> to the
  unsigned \<^verbatim>\<open>size_type\<close>, where a negative \<^verbatim>\<open>int\<close> becomes a value above every possible
  size, and throws when the converted index is not below the size.\<close>

definition at_vec :: "'a list \<Rightarrow> int \<Rightarrow> error + 'a" where
  "at_vec xs i = (if i < 0 \<or> int (length xs) \<le> i then Inl OutOfRange else Inr (xs ! nat i))"

definition get_node :: "graph \<Rightarrow> int \<Rightarrow> error + node" where
  "get_node g ident = at_vec (nodes g) ident"

subsection \<open>Searching\<close>

text \<open>The test of \<^verbatim>\<open>Graph::has_unkown_directions\<close> on one node.\<close>

definition unknown_directions :: "node \<Rightarrow> bool" where
  "unknown_directions n =
     (id_north n = NAV_GRAPH_UNKNOWN \<or> id_east n = NAV_GRAPH_UNKNOWN \<or>
      id_south n = NAV_GRAPH_UNKNOWN \<or> id_west n = NAV_GRAPH_UNKNOWN)"


text \<open>\<^verbatim>\<open>update_dijkstra\<close>: the result is the returned flag with the two vectors as the call
  leaves them.\<close>

definition update_dijkstra ::
  "int \<Rightarrow> int \<Rightarrow> node list \<Rightarrow> int list \<Rightarrow> dist list \<Rightarrow> error + (bool \<times> int list \<times> dist list)" where
  "update_dijkstra ident id_next ns previous distances =
     (if \<not> in_bounds ns ident \<or> \<not> in_bounds ns id_next \<or>
         \<not> in_bounds distances ident \<or> \<not> in_bounds distances id_next \<or>
         \<not> in_bounds previous id_next
      then Inl UndefinedBehaviour
      else
        let nd = ns ! nat ident; next = ns ! nat id_next;
            d = dist_add (distances ! nat ident)
                  (sq_dist (node_x nd) (node_y nd) (node_x next) (node_y next))
        in if dist_less d (distances ! nat id_next)
           then Inr (True, previous[nat id_next := ident], distances[nat id_next := d])
           else Inr (False, previous, distances))"

text \<open>One of the four blocks in the loop of \<^verbatim>\<open>Graph::path_to_poi\<close>, for the link \<open>nb\<close> of
  the node \<open>ident\<close>: the state is the queue and the two vectors.\<close>

definition relax ::
  "node list \<Rightarrow> int \<Rightarrow> int \<Rightarrow> int list \<times> int list \<times> dist list \<Rightarrow>
     error + (int list \<times> int list \<times> dist list)" where
  "relax ns ident nb s =
     (case s of (queue, previous, distances) \<Rightarrow>
        if nb \<ge> 0 then
          (case update_dijkstra ident nb ns previous distances of
             Inl e \<Rightarrow> Inl e
           | Inr (b, previous', distances') \<Rightarrow>
               Inr (if b then queue @ [nb] else queue, previous', distances'))
        else Inr s)"

definition bind_err :: "error + 'a \<Rightarrow> ('a \<Rightarrow> error + 'b) \<Rightarrow> error + 'b" where
  "bind_err m f = (case m of Inl e \<Rightarrow> Inl e | Inr v \<Rightarrow> f v)"

text \<open>The four blocks in the order of the source: north, east, south, west.\<close>

definition relax_all ::
  "node list \<Rightarrow> int \<Rightarrow> int list \<times> int list \<times> dist list \<Rightarrow>
     error + (int list \<times> int list \<times> dist list)" where
  "relax_all ns ident s =
     (let nd = ns ! nat ident in
      bind_err (relax ns ident (id_north nd) s) (\<lambda>s1.
      bind_err (relax ns ident (id_east nd) s1) (\<lambda>s2.
      bind_err (relax ns ident (id_south nd) s2) (\<lambda>s3.
      relax ns ident (id_west nd) s3))))"

text \<open>The number of nodes not yet visited: it decreases whenever the loop does not just drop
  the head of the queue.\<close>

definition unvisited :: "bool list \<Rightarrow> nat" where
  "unvisited visited = length (filter Not visited)"

text \<open>The \<^verbatim>\<open>while (!queue.empty())\<close> loop of \<^verbatim>\<open>Graph::path_to_poi\<close>.\<close>

function bfs_loop ::
  "node list \<Rightarrow> int list \<Rightarrow> int list \<Rightarrow> dist list \<Rightarrow> bool list \<Rightarrow>
     error + (int list \<times> dist list \<times> bool list)" where
  "bfs_loop ns [] previous distances visited = Inr (previous, distances, visited)"
| "bfs_loop ns (ident # queue) previous distances visited =
     (if \<not> in_bounds visited ident \<or> \<not> in_bounds ns ident then Inl UndefinedBehaviour
      else if visited ! nat ident then bfs_loop ns queue previous distances visited
      else
        (case relax_all ns ident (queue, previous, distances) of
           Inl e \<Rightarrow> Inl e
         | Inr (queue', previous', distances') \<Rightarrow>
             bfs_loop ns queue' previous' distances' (visited[nat ident := True])))"
  by pat_completeness auto

termination bfs_loop
proof (relation "measures [\<lambda>(ns, q, p, d, v). unvisited v, \<lambda>(ns, q, p, d, v). length q]",
    goal_cases)
  case 1
  show ?case by simp
next
  case (2 ns ident queue previous distances visited)
  then show ?case by simp
next
  case (3 ns ident queue previous distances visited r queue' r' previous' distances')
  have step: "i < length v \<Longrightarrow> \<not> v ! i \<Longrightarrow> unvisited (v[i := True]) < unvisited v"
    for i and v :: "bool list"
  proof (induction v arbitrary: i)
    case Nil
    then show ?case by simp
  next
    case (Cons b v)
    then show ?case by (cases i) (auto simp: unvisited_def)
  qed
  from 3 have "nat ident < length visited"
    unfolding in_bounds_def by linarith
  with 3 have "unvisited (visited[nat ident := True]) < unvisited visited"
    by (simp add: step)
  then show ?case by simp
qed

text \<open>The scan for the nearest node that passes the filter, over the rest of the two
  vectors: \<open>i\<close> is the index of the next element.\<close>

fun scan_loop :: "bool list \<Rightarrow> dist list \<Rightarrow> nat \<Rightarrow> nat \<Rightarrow> dist \<Rightarrow> nat \<times> dist" where
  "scan_loop (f # fs) (d # ds) i i_min_dist min_dist =
     (if f \<and> dist_less d min_dist
      then scan_loop fs ds (i + 1) i d
      else scan_loop fs ds (i + 1) i_min_dist min_dist)"
| "scan_loop fs ds i i_min_dist min_dist = (i_min_dist, min_dist)"

text \<open>The loop \<^verbatim>\<open>while (cur != id_from)\<close> that follows \<^verbatim>\<open>previous\<close>. Nothing in the source
  bounds it, so the model is partial: \<open>None\<close> stands for a loop that never ends.\<close>

partial_function (option) trace_back ::
  "int list \<Rightarrow> int \<Rightarrow> int \<Rightarrow> int list \<Rightarrow> (error + int list) option" where
  "trace_back previous id_from cur path =
     (if cur \<noteq> id_from then
        (if \<not> in_bounds previous cur then Some (Inl UndefinedBehaviour)
         else trace_back previous id_from (previous ! nat cur) (path @ [previous ! nat cur]))
      else Some (Inr path))"

declare trace_back.simps [code]

text \<open>\<^verbatim>\<open>Graph::path_to_poi\<close>. The vector \<open>path\<close> is the caller's: it is cleared only after
  the test for the empty graph. The filter is read at every index of the node vector.\<close>

definition path_to_poi ::
  "graph \<Rightarrow> int \<Rightarrow> bool list \<Rightarrow> int list \<Rightarrow> (error + (int list \<times> graph)) option" where
  "path_to_poi g id_from filter_vec path =
     (let n = length (nodes g) in
      if n = 0 then Some (Inr (path, g))
      else if \<not> in_bounds (nodes g) id_from \<or> length filter_vec < n then Some (Inl UndefinedBehaviour)
      else
        let previous = replicate n (- 1);
            distances = (replicate n Infinity)[nat id_from := Finite 0];
            visited = replicate n False
        in case bfs_loop (nodes g) [id_from] previous distances visited of
             Inl e \<Rightarrow> Some (Inl e)
           | Inr (previous', distances', visited') \<Rightarrow>
               let i_min_dist = fst (scan_loop (take n filter_vec) distances' 0 0 Infinity);
                   cur = int i_min_dist
               in case trace_back previous' id_from cur [cur] of
                    None \<Rightarrow> None
                  | Some (Inl e) \<Rightarrow> Some (Inl e)
                  | Some (Inr p) \<Rightarrow> Some (Inr (rev p, g)))"

text \<open>\<^verbatim>\<open>Graph::path_to_next_unknown\<close>: the filter holds the result of
  \<^verbatim>\<open>has_unkown_directions(i)\<close> for every index \<open>i\<close> of the vector.\<close>

definition path_to_next_unknown ::
  "graph \<Rightarrow> int \<Rightarrow> int list \<Rightarrow> (error + (int list \<times> graph)) option" where
  "path_to_next_unknown g id_from path =
     path_to_poi g id_from (map unknown_directions (nodes g)) path"

text \<open>\<^verbatim>\<open>Graph::path_to_next_object\<close>\<close>

definition path_to_next_object ::
  "graph \<Rightarrow> int \<Rightarrow> int list \<Rightarrow> (error + (int list \<times> graph)) option" where
  "path_to_next_object g id_from path =
     path_to_poi g id_from (map object_here (nodes g)) path"

subsection \<open>Notions used to state the properties\<close>

text \<open>The squared distance of a stored node to a query point, as \<^verbatim>\<open>on_node\<close> computes it.\<close>

definition node_dist :: "real \<Rightarrow> real \<Rightarrow> node \<Rightarrow> real" where
  "node_dist x y n = sq_dist x y (node_x n) (node_y n)"

text \<open>The link of a node in a direction of the enum, and the direction that
  \<^verbatim>\<open>set_connected\<close> writes at the other end.\<close>

definition cardinal :: "int \<Rightarrow> bool" where
  "cardinal dir = (dir = North \<or> dir = East \<or> dir = South \<or> dir = West)"

definition link :: "node \<Rightarrow> int \<Rightarrow> int" where
  "link n dir =
     (if dir = North then id_north n
      else if dir = East then id_east n
      else if dir = South then id_south n
      else id_west n)"

definition opposite :: "int \<Rightarrow> int" where
  "opposite dir =
     (if dir = North then South
      else if dir = East then West
      else if dir = South then North
      else East)"

text \<open>The identifiers are the positions: the node stored at index \<open>i\<close> has \<open>id_this = i\<close>.\<close>

definition ids_dense :: "graph \<Rightarrow> bool" where
  "ids_dense g = (map id_this (nodes g) = map int [0..<length (nodes g)])"

text \<open>No link points beyond the store.\<close>

definition links_in_range :: "graph \<Rightarrow> bool" where
  "links_in_range g =
     list_all (\<lambda>n. list_all (\<lambda>dir. link n dir < int (length (nodes g))) [North, East, South, West])
       (nodes g)"

text \<open>Reciprocity: the link of \<open>a\<close> in a direction is \<open>b\<close> exactly when the link of \<open>b\<close> in the
  opposite direction is \<open>a\<close>.\<close>

definition reciprocal :: "graph \<Rightarrow> bool" where
  "reciprocal g =
     list_all (\<lambda>a. list_all (\<lambda>b. list_all (\<lambda>dir.
         (link (nodes g ! a) dir = int b) = (link (nodes g ! b) (opposite dir) = int a))
       [North, East, South, West]) [0..<length (nodes g)]) [0..<length (nodes g)]"

text \<open>The states that the two placement methods reach from a new graph.\<close>

inductive reachable :: "graph \<Rightarrow> bool" where
  start: "reachable (Graph thresh upd)"
| node: "reachable g \<Longrightarrow> place_node g x y req = Inr (n, g') \<Longrightarrow> reachable g'"
| object: "reachable g \<Longrightarrow> place_object g id_origin req = Inr (n, g') \<Longrightarrow> reachable g'"

text \<open>A link slot that a connection may write without losing a connection: the node does
  not exist yet, or its link in that direction is negative (unknown or blocked), or it
  already holds the value to be written.\<close>

definition slot_free :: "graph \<Rightarrow> int \<Rightarrow> int \<Rightarrow> int \<Rightarrow> bool" where
  "slot_free g ident dir target =
     (in_bounds (nodes g) ident \<longrightarrow>
        link (nodes g ! nat ident) dir < 0 \<or> link (nodes g ! nat ident) dir = target)"

text \<open>The node that \<^verbatim>\<open>place_object\<close> connects the origin to: the nearby object node when
  there is one, else the node about to be created.\<close>

definition object_target :: "graph \<Rightarrow> request \<Rightarrow> int" where
  "object_target g req =
     (case fst (on_node g (object_x req) (object_y req)) of
        None \<Rightarrow> int (length (nodes g))
      | Some n \<Rightarrow> if object_here n then id_this n else int (length (nodes g)))"

text \<open>The states reached by placements none of which connects over an existing
  connection.\<close>

inductive reachable_no_overwrite :: "graph \<Rightarrow> bool" where
  start: "reachable_no_overwrite (Graph thresh upd)"
| node: "reachable_no_overwrite g \<Longrightarrow>
         slot_free g (id_previous req) (direction req) (int (length (nodes g))) \<Longrightarrow>
         place_node g x y req = Inr (n, g') \<Longrightarrow> reachable_no_overwrite g'"
| object: "reachable_no_overwrite g \<Longrightarrow>
           slot_free g id_origin (object_direction req) (object_target g req) \<Longrightarrow>
           slot_free g (object_target g req) (opposite (object_direction req)) id_origin \<Longrightarrow>
           place_object g id_origin req = Inr (n, g') \<Longrightarrow> reachable_no_overwrite g'"

subsection \<open>Example states\<close>

definition ex_req :: request where
  "ex_req =
     \<lparr>north_blocked = True, east_blocked = True, south_blocked = True, west_blocked = True,
      id_previous = 0, direction = 1, object_x = 0, object_y = 5, object_direction = 0\<rparr>"

definition ex_node :: "int \<Rightarrow> real \<Rightarrow> real \<Rightarrow> node" where
  "ex_node i x y =
     \<lparr>id_this = i, node_x = x, node_y = y, id_north = - 2, id_east = - 2, id_south = - 2,
      id_west = - 2, object_here = False\<rparr>"

text \<open>One node, every direction blocked, no object: the state after the first
  \<^verbatim>\<open>place_node\<close> on a new graph.\<close>

definition ex_one :: graph where
  "ex_one = (Graph 1 False)\<lparr>nodes := [ex_node 0 0 0]\<rparr>"

text \<open>Two nodes connected east-west.\<close>

definition ex_two :: graph where
  "ex_two =
     (Graph 1 False)\<lparr>nodes := [(ex_node 0 0 0)\<lparr>id_east := 1\<rparr>, (ex_node 1 5 0)\<lparr>id_west := 0\<rparr>]\<rparr>"

text \<open>Two nodes without a connection: the state after a second \<^verbatim>\<open>place_node\<close> whose
  direction is outside the enum.\<close>

definition ex_apart :: graph where
  "ex_apart = (Graph 1 False)\<lparr>nodes := [ex_node 0 0 0, ex_node 1 5 0]\<rparr>"

text \<open>\<open>k\<close> is the first index among those whose node is nearest to the query point.\<close>

definition first_nearest :: "real \<Rightarrow> real \<Rightarrow> node list \<Rightarrow> nat \<Rightarrow> bool" where
  "first_nearest x y ns k =
     (k < length ns \<and>
      (\<forall>j<length ns. node_dist x y (ns ! k) \<le> node_dist x y (ns ! j)) \<and>
      (\<forall>j<k. node_dist x y (ns ! k) < node_dist x y (ns ! j)))"

text \<open>Writing one link of a node, and the two writes of \<^verbatim>\<open>set_connected\<close> for a direction of
  the enum on the node vector.\<close>

definition set_link :: "node \<Rightarrow> int \<Rightarrow> int \<Rightarrow> node" where
  "set_link n dir v =
     (if dir = North then n\<lparr>id_north := v\<rparr>
      else if dir = East then n\<lparr>id_east := v\<rparr>
      else if dir = South then n\<lparr>id_south := v\<rparr>
      else n\<lparr>id_west := v\<rparr>)"

definition connect_nodes :: "node list \<Rightarrow> nat \<Rightarrow> int \<Rightarrow> nat \<Rightarrow> node list" where
  "connect_nodes ns a dir b =
     (let ns1 = ns[a := set_link (ns ! a) dir (int b)]
      in ns1[b := set_link (ns1 ! b) (opposite dir) (int a)])"

text \<open>The node that \<^verbatim>\<open>place_node\<close> appends, and the one that \<^verbatim>\<open>place_object\<close> appends.\<close>

definition new_node :: "request \<Rightarrow> real \<Rightarrow> real \<Rightarrow> nat \<Rightarrow> node" where
  "new_node req x y k =
     (init_node default_node (north_blocked req) (east_blocked req) (south_blocked req)
        (west_blocked req))\<lparr>node_x := x, node_y := y, id_this := int k\<rparr>"

definition new_object :: "request \<Rightarrow> nat \<Rightarrow> node" where
  "new_object req k =
     (init_node default_node True True True True)
       \<lparr>object_here := True, node_x := object_x req, node_y := object_y req, id_this := int k\<rparr>"

text \<open>The node vector after a merge into the node at index \<open>k\<close>.\<close>

definition merge_at :: "graph \<Rightarrow> nat \<Rightarrow> real \<Rightarrow> real \<Rightarrow> node list" where
  "merge_at g k x y =
     (let p = update_position g (node_x (nodes g ! k), node_y (nodes g ! k)) x y
      in (nodes g)[k := (nodes g ! k)\<lparr>node_x := fst p, node_y := snd p\<rparr>])"

text \<open>A node and an object node with smoothing switched on.\<close>

definition ex_smooth :: graph where
  "ex_smooth =
     (Graph 1 True)\<lparr>nodes := [(ex_node 0 0 0)\<lparr>id_north := 1\<rparr>,
                              (ex_node 1 0 5)\<lparr>id_south := 0, object_here := True\<rparr>]\<rparr>"

text \<open>Two connected nodes, the second with an unexplored direction.\<close>

definition ex_front :: graph where
  "ex_front =
     (Graph 1 False)\<lparr>nodes := [(ex_node 0 0 0)\<lparr>id_east := 1\<rparr>,
                               (ex_node 1 5 0)\<lparr>id_west := 0, id_north := - 1\<rparr>]\<rparr>"

text \<open>The state after a third \<^verbatim>\<open>place_node\<close> that again leaves node 0 to the east.\<close>

definition ex_three :: graph where
  "ex_three =
     (Graph 1 False)\<lparr>nodes := [(ex_node 0 0 0)\<lparr>id_east := 2\<rparr>,
                               (ex_node 1 5 0)\<lparr>id_west := 0\<rparr>,
                               (ex_node 2 10 0)\<lparr>id_west := 0\<rparr>]\<rparr>"

text \<open>The state after \<^verbatim>\<open>place_object\<close> from node 0 of the two connected nodes, the object
  to the north.\<close>

definition ex_with_object :: graph where
  "ex_with_object =
     (Graph 1 False)\<lparr>nodes := [(ex_node 0 0 0)\<lparr>id_north := 2, id_east := 1\<rparr>,
                               (ex_node 1 5 0)\<lparr>id_west := 0\<rparr>,
                               (ex_node 2 0 5)\<lparr>id_south := 0, object_here := True\<rparr>]\<rparr>"

text \<open>The walk along \<open>previous\<close> from \<open>cur\<close> ends: it arrives at \<open>id_from\<close> or leaves the
  vector after finitely many steps.\<close>

inductive trace_ends :: "int list \<Rightarrow> int \<Rightarrow> int \<Rightarrow> bool"
  for previous :: "int list" and id_from :: int where
  arrived: "trace_ends previous id_from id_from"
| outside: "cur \<noteq> id_from \<Longrightarrow> \<not> in_bounds previous cur \<Longrightarrow> trace_ends previous id_from cur"
| step: "cur \<noteq> id_from \<Longrightarrow> in_bounds previous cur \<Longrightarrow>
         trace_ends previous id_from (previous ! nat cur) \<Longrightarrow> trace_ends previous id_from cur"


section \<open>Properties\<close>

subsection \<open>Lookup by identifier\<close>

text \<open>
  Claim C9. \<^verbatim>\<open>get_node\<close> fails with the out-of-range error exactly when the identifier is
  negative or not below the number of nodes; for any other identifier it returns the node
  stored at that index.
\<close>

theorem get_node_out_of_range:
  "(get_node g ident = Inl OutOfRange \<longleftrightarrow> ident < 0 \<or> int (length (nodes g)) \<le> ident) \<and>
   (0 \<le> ident \<and> ident < int (length (nodes g)) \<longrightarrow> get_node g ident = Inr (nodes g ! nat ident))"
  by (simp add: get_node_def at_vec_def)

theorem get_node_out_of_range_witness:
  "get_node ex_two 1 = Inr ((ex_node 1 5 0)\<lparr>id_west := 0\<rparr>) \<and>
   get_node ex_two 2 = Inl OutOfRange \<and>
   get_node ex_two (- 1) = Inl OutOfRange"
  using get_node_out_of_range [of ex_two 1] get_node_out_of_range [of ex_two 2]
    get_node_out_of_range [of ex_two "- 1"]
  by (simp add: ex_two_def)

subsection \<open>A search that matches nothing\<close>

text \<open>
  Claim C1. When no node passes the filter, the scan of \<^verbatim>\<open>path_to_poi\<close> keeps its initial
  index 0 and the path is traced back from node 0. On the graph of one node without an
  object and without an unknown direction, both searches from node 0 return the path
  \<open>[0]\<close>, not the empty path. On the graph of two unconnected nodes the search from node 1
  follows \<^verbatim>\<open>previous[0] = -1\<close> and reads \<^verbatim>\<open>previous[-1]\<close>.
\<close>

theorem path_to_poi_no_match:
  "path_to_next_object ex_one 0 [] = Some (Inr ([0], ex_one)) \<and>
   path_to_next_unknown ex_one 0 [] = Some (Inr ([0], ex_one)) \<and>
   path_to_next_object ex_apart 1 [] = Some (Inl UndefinedBehaviour)"
  by (simp add: path_to_next_object_def path_to_next_unknown_def path_to_poi_def ex_one_def
      ex_apart_def ex_node_def Graph_def in_bounds_def relax_all_def relax_def bind_err_def
      unknown_directions_def NAV_GRAPH_UNKNOWN_def trace_back.simps)

subsection \<open>The nearest node within the threshold\<close>

lemma first_nearest_unique:
  "first_nearest x y ns k \<Longrightarrow> first_nearest x y ns k' \<Longrightarrow> k = k'"
  unfolding first_nearest_def
  by (metis linorder_neqE_nat not_less)

lemma first_nearest_head:
  "(\<forall>j<length ns. node_dist x y n \<le> node_dist x y (ns ! j)) \<Longrightarrow> first_nearest x y (n # ns) 0"
  by (auto simp: first_nearest_def nth_Cons split: nat.splits)

lemma first_nearest_tail:
  "first_nearest x y ns k \<Longrightarrow> node_dist x y (ns ! k) < node_dist x y n \<Longrightarrow>
   first_nearest x y (n # ns) (Suc k)"
  by (auto simp: first_nearest_def nth_Cons less_Suc_eq_0_disj split: nat.splits)

lemma on_node_loop_result:
  "on_node_loop x y ns i c m = (c', m') \<Longrightarrow>
     (c' = c \<and> m' = m \<and> (\<forall>j<length ns. \<not> dist_less (Finite (node_dist x y (ns ! j))) m)) \<or>
     (\<exists>k. first_nearest x y ns k \<and> c' = i + k \<and> m' = Finite (node_dist x y (ns ! k)) \<and>
          dist_less m' m)"
proof (induction ns arbitrary: i c m)
  case Nil
  then show ?case by simp
next
  case (Cons n ns)
  let ?d = "node_dist x y n"
  show ?case
  proof (cases "dist_less (Finite ?d) m")
    case True
    with Cons.prems have rec: "on_node_loop x y ns (i + 1) i (Finite ?d) = (c', m')"
      by (simp add: node_dist_def)
    from Cons.IH [OF rec] show ?thesis
    proof (elim disjE conjE exE)
      assume "c' = i" "m' = Finite ?d"
        and "\<forall>j<length ns. \<not> dist_less (Finite (node_dist x y (ns ! j))) (Finite ?d)"
      then have "first_nearest x y (n # ns) 0"
        by (intro first_nearest_head) (simp add: not_less)
      with \<open>c' = i\<close> \<open>m' = Finite ?d\<close> True show ?thesis
        by (intro disjI2 exI [of _ 0]) simp
    next
      fix k
      assume k: "first_nearest x y ns k" "c' = i + 1 + k" "m' = Finite (node_dist x y (ns ! k))"
        "dist_less m' (Finite ?d)"
      then have "first_nearest x y (n # ns) (Suc k)"
        by (intro first_nearest_tail) simp_all
      moreover from k True have "dist_less m' m"
        by (cases m) auto
      ultimately show ?thesis using k
        by (intro disjI2 exI [of _ "Suc k"]) simp
    qed
  next
    case False
    with Cons.prems have rec: "on_node_loop x y ns (i + 1) c m = (c', m')"
      by (simp add: node_dist_def)
    from Cons.IH [OF rec] show ?thesis
    proof (elim disjE conjE exE)
      assume "c' = c" "m' = m"
        and "\<forall>j<length ns. \<not> dist_less (Finite (node_dist x y (ns ! j))) m"
      with False show ?thesis
        by (intro disjI1) (auto simp: nth_Cons split: nat.splits)
    next
      fix k
      assume k: "first_nearest x y ns k" "c' = i + 1 + k" "m' = Finite (node_dist x y (ns ! k))"
        "dist_less m' m"
      with False have "node_dist x y (ns ! k) < ?d"
        by (cases m) auto
      with k have "first_nearest x y (n # ns) (Suc k)"
        by (intro first_nearest_tail)
      then show ?thesis using k
        by (intro disjI2 exI [of _ "Suc k"]) simp
    qed
  qed
qed

lemma on_node_Some:
  "fst (on_node g x y) = Some n \<longleftrightarrow>
     (\<exists>k. first_nearest x y (nodes g) k \<and> n = nodes g ! k \<and>
          node_dist x y (nodes g ! k) < dist_thresh g * dist_thresh g)"
proof -
  obtain c m where r: "on_node_loop x y (nodes g) 0 0 Infinity = (c, m)"
    by (cases "on_node_loop x y (nodes g) 0 0 Infinity")
  from on_node_loop_result [OF r] show ?thesis
  proof (elim disjE conjE exE)
    assume "c = 0" "m = Infinity"
      and "\<forall>j<length (nodes g). \<not> dist_less (Finite (node_dist x y (nodes g ! j))) Infinity"
    then have "nodes g = []" by auto
    then show ?thesis using r by (simp add: on_node_def first_nearest_def)
  next
    fix k
    assume k: "first_nearest x y (nodes g) k" "c = 0 + k" "m = Finite (node_dist x y (nodes g ! k))"
    show ?thesis
    proof
      assume "fst (on_node g x y) = Some n"
      with r k show "\<exists>k. first_nearest x y (nodes g) k \<and> n = nodes g ! k \<and>
          node_dist x y (nodes g ! k) < dist_thresh g * dist_thresh g"
        by (intro exI [of _ k]) (auto simp: on_node_def split: if_splits)
    next
      assume "\<exists>k. first_nearest x y (nodes g) k \<and> n = nodes g ! k \<and>
          node_dist x y (nodes g ! k) < dist_thresh g * dist_thresh g"
      then obtain k' where k': "first_nearest x y (nodes g) k'" "n = nodes g ! k'"
        "node_dist x y (nodes g ! k') < dist_thresh g * dist_thresh g" by blast
      with k have "k' = k" by (auto dest: first_nearest_unique)
      with r k k' show "fst (on_node g x y) = Some n"
        by (simp add: on_node_def)
    qed
  qed
qed


lemma snd_on_node [simp]: "snd (on_node g x y) = g"
  by (simp add: on_node_def Let_def)




subsection \<open>A direction outside the enum\<close>

text \<open>
  Claim C7, as stated, asks for a failure when the direction is not one of the four. Here
  the direction 7 is not cardinal, and the call returns normally with the graph as it was.
\<close>

theorem set_connected_invalid_direction_counterexample:
  "\<not> cardinal 7 \<and> set_connected ex_two 0 7 1 = Inr ex_two"
  by (simp add: cardinal_def North_def East_def South_def West_def set_connected_def in_bounds_def ex_two_def)

text \<open>
  Claim C7, amended. With both identifiers in the store and a direction that is not one of
  the four, \<^verbatim>\<open>set_connected\<close> returns normally and leaves the graph, hence every link, as
  it was.
\<close>

theorem set_connected_invalid_direction:
  "\<not> cardinal dir \<Longrightarrow> in_bounds (nodes g) ident \<Longrightarrow> in_bounds (nodes g) id_next \<Longrightarrow>
   set_connected g ident dir id_next = Inr g"
  by (simp add: cardinal_def set_connected_def)

theorem set_connected_invalid_direction_witness:
  "\<not> cardinal (- 1) \<and> in_bounds (nodes ex_two) 1 \<and> in_bounds (nodes ex_two) 0 \<and>
   set_connected ex_two 1 (- 1) 0 = Inr ex_two"
proof -
  have a: "\<not> cardinal (- 1)" by (simp add: cardinal_def North_def East_def South_def West_def)
  have b: "in_bounds (nodes ex_two) 1" "in_bounds (nodes ex_two) 0" by (simp_all add: in_bounds_def ex_two_def)
  from set_connected_invalid_direction [OF a b] a b show ?thesis by simp
qed

subsection \<open>What the placement methods do, case by case\<close>

lemmas dir_defs = North_def East_def South_def West_def

lemma cardinal_opposite:
  "cardinal d \<Longrightarrow> cardinal (opposite d) \<and> opposite (opposite d) = d \<and> opposite d \<noteq> d"
  by (auto simp: cardinal_def opposite_def dir_defs)

lemma link_set_link:
  "cardinal d \<Longrightarrow> cardinal d' \<Longrightarrow> link (set_link n d v) d' = (if d' = d then v else link n d')"
  by (auto simp: cardinal_def link_def set_link_def dir_defs)

lemma set_link_fields [simp]:
  "id_this (set_link n d v) = id_this n"
  "node_x (set_link n d v) = node_x n"
  "node_y (set_link n d v) = node_y n"
  "object_here (set_link n d v) = object_here n"
  by (simp_all add: set_link_def)

lemma nth_update_if:
  "xs[i := v] ! j = (if i = j \<and> i < length xs then v else xs ! j)"
  by (cases "i < length xs") (auto simp: nth_list_update list_update_beyond)

lemma length_connect_nodes [simp]: "length (connect_nodes ns a d b) = length ns"
  by (simp add: connect_nodes_def Let_def)

lemma connect_nodes_fields:
  assumes "c < length ns"
  shows "id_this (connect_nodes ns a d b ! c) = id_this (ns ! c)"
    and "node_x (connect_nodes ns a d b ! c) = node_x (ns ! c)"
    and "node_y (connect_nodes ns a d b ! c) = node_y (ns ! c)"
    and "object_here (connect_nodes ns a d b ! c) = object_here (ns ! c)"
  using assms by (auto simp: connect_nodes_def Let_def nth_update_if)

lemma link_connect_nodes:
  assumes "cardinal d" "cardinal d'" "a < length ns" "b < length ns" "c < length ns"
  shows "link (connect_nodes ns a d b ! c) d' =
           (if c = b \<and> d' = opposite d then int a
            else if c = a \<and> d' = d then int b
            else link (ns ! c) d')"
  using assms cardinal_opposite [of d]
  by (auto simp: connect_nodes_def Let_def nth_list_update link_set_link)

lemma in_bounds_nat: "in_bounds xs i \<Longrightarrow> nat i < length xs"
  unfolding in_bounds_def by linarith

lemma in_bounds_int [simp]: "in_bounds xs (int k) \<longleftrightarrow> k < length xs"
  by (simp add: in_bounds_def)

lemma set_connected_Inr:
  "set_connected g a dir b = Inr g' \<Longrightarrow> in_bounds (nodes g) a \<and> in_bounds (nodes g) b"
  by (auto simp: set_connected_def split: if_splits)

lemma set_connected_cardinal:
  "cardinal dir \<Longrightarrow> in_bounds (nodes g) a \<Longrightarrow> in_bounds (nodes g) b \<Longrightarrow>
   set_connected g a dir b = Inr (g\<lparr>nodes := connect_nodes (nodes g) (nat a) dir (nat b)\<rparr>)"
  by (auto simp: set_connected_def connect_nodes_def set_link_def cardinal_def opposite_def
      dir_defs in_bounds_def Let_def)

lemma set_connected_other:
  "\<not> cardinal dir \<Longrightarrow> in_bounds (nodes g) a \<Longrightarrow> in_bounds (nodes g) b \<Longrightarrow>
   set_connected g a dir b = Inr g"
  by (simp add: cardinal_def set_connected_def)

lemma set_connected_result:
  assumes "set_connected g a dir b = Inr g'"
  shows "g' = (if cardinal dir then g\<lparr>nodes := connect_nodes (nodes g) (nat a) dir (nat b)\<rparr> else g)"
proof -
  from assms have ab: "in_bounds (nodes g) a" "in_bounds (nodes g) b"
    by (auto dest: set_connected_Inr)
  show ?thesis
  proof (cases "cardinal dir")
    case True
    with set_connected_cardinal [OF True ab] assms show ?thesis by simp
  next
    case False
    with set_connected_other [OF False ab] assms show ?thesis by simp
  qed
qed

lemma on_node_eq: "on_node g x y = (fst (on_node g x y), g)"
  by (simp add: on_node_def Let_def)

lemma place_node_None:
  assumes "fst (on_node g x y) = None"
  shows "place_node g x y req =
           (let n1 = new_node req x y (length (nodes g)); g1 = g\<lparr>nodes := nodes g @ [n1]\<rparr>
            in if nodes g = [] then Inr (n1, g1)
               else (case set_connected g1 (id_previous req) (direction req) (int (length (nodes g))) of
                       Inl e \<Rightarrow> Inl e
                     | Inr g2 \<Rightarrow> Inr (nodes g2 ! length (nodes g), g2)))"
proof -
  from assms on_node_eq [of g x y] have "on_node g x y = (None, g)" by simp
  then show ?thesis
    by (cases "nodes g = []") (simp_all add: place_node_def new_node_def Let_def cong: sum.case_cong)
qed

lemma place_node_Some:
  assumes "fst (on_node g x y) = Some m"
  shows "place_node g x y req =
           (if \<not> in_bounds (nodes g) (id_this m) then Inl UndefinedBehaviour
            else Inr (merge_at g (nat (id_this m)) x y ! nat (id_this m),
                      g\<lparr>nodes := merge_at g (nat (id_this m)) x y\<rparr>))"
proof -
  from assms on_node_eq [of g x y] have "on_node g x y = (Some m, g)" by simp
  then show ?thesis
    by (simp add: place_node_def merge_at_def Let_def)
qed

lemma place_object_create:
  assumes "fst (on_node g (object_x req) (object_y req)) = None \<or>
           (\<exists>m. fst (on_node g (object_x req) (object_y req)) = Some m \<and> \<not> object_here m)"
  shows "place_object g id_origin req =
           (let n1 = new_object req (length (nodes g)); g1 = g\<lparr>nodes := nodes g @ [n1]\<rparr>
            in case set_connected g1 id_origin (object_direction req) (int (length (nodes g))) of
                 Inl e \<Rightarrow> Inl e
               | Inr g2 \<Rightarrow> Inr (nodes g2 ! length (nodes g), g2))"
proof -
  obtain r where r: "on_node g (object_x req) (object_y req) = (r, g)"
    using on_node_eq by blast
  with assms have "r = None \<or> (\<exists>m. r = Some m \<and> \<not> object_here m)" by simp
  with r show ?thesis
    by (auto simp: place_object_def new_object_def Let_def cong: sum.case_cong)
qed

lemma place_object_reuse:
  assumes "fst (on_node g (object_x req) (object_y req)) = Some m" "object_here m"
  shows "place_object g id_origin req =
           (if \<not> in_bounds (nodes g) (id_this m) then Inl UndefinedBehaviour
            else
              case set_connected (g\<lparr>nodes := merge_at g (nat (id_this m)) (object_x req) (object_y req)\<rparr>)
                     id_origin (object_direction req) (id_this m) of
                Inl e \<Rightarrow> Inl e
              | Inr g2 \<Rightarrow> Inr (nodes g2 ! nat (id_this m), g2))"
proof -
  from assms on_node_eq [of g "object_x req" "object_y req"]
  have "on_node g (object_x req) (object_y req) = (Some m, g)" by simp
  with assms(2) show ?thesis
    by (simp add: place_object_def merge_at_def Let_def cong: sum.case_cong)
qed

lemma ids_dense_nth: "ids_dense g \<Longrightarrow> i < length (nodes g) \<Longrightarrow> id_this (nodes g ! i) = int i"
proof -
  assume a: "ids_dense g" "i < length (nodes g)"
  then have "map id_this (nodes g) ! i = map int [0..<length (nodes g)] ! i"
    by (simp add: ids_dense_def)
  with a(2) show ?thesis by simp
qed

lemma ids_dense_append:
  "ids_dense g \<Longrightarrow> id_this n = int (length (nodes g)) \<Longrightarrow> ids_dense (g\<lparr>nodes := nodes g @ [n]\<rparr>)"
  by (simp add: ids_dense_def)

lemma ids_dense_same:
  "ids_dense g \<Longrightarrow> map id_this (nodes g') = map id_this (nodes g) \<Longrightarrow> ids_dense g'"
proof -
  assume a: "ids_dense g" "map id_this (nodes g') = map id_this (nodes g)"
  from a(2) have "length (nodes g') = length (nodes g)" by (rule map_eq_imp_length_eq)
  with a show ?thesis by (simp add: ids_dense_def)
qed

lemma map_id_connect: "map id_this (connect_nodes ns a d b) = map id_this ns"
  by (rule nth_equalityI) (simp_all add: connect_nodes_fields)

lemma length_merge_at [simp]: "length (merge_at g k x y) = length (nodes g)"
  by (simp add: merge_at_def Let_def)

lemma merge_at_fields:
  "id_this (merge_at g k x y ! c) = id_this (nodes g ! c)"
  "object_here (merge_at g k x y ! c) = object_here (nodes g ! c)"
  "id_north (merge_at g k x y ! c) = id_north (nodes g ! c)"
  "id_east (merge_at g k x y ! c) = id_east (nodes g ! c)"
  "id_south (merge_at g k x y ! c) = id_south (nodes g ! c)"
  "id_west (merge_at g k x y ! c) = id_west (nodes g ! c)"
  by (simp_all add: merge_at_def Let_def nth_update_if)

lemma link_merge_at: "link (merge_at g k x y ! c) d = link (nodes g ! c) d"
  by (simp add: link_def merge_at_fields)

lemma map_id_merge: "map id_this (merge_at g k x y) = map id_this (nodes g)"
  by (rule nth_equalityI) (simp_all add: merge_at_fields)

lemma set_connected_ids:
  "set_connected g a d b = Inr g' \<Longrightarrow> map id_this (nodes g') = map id_this (nodes g)"
  by (drule set_connected_result) (simp add: map_id_connect)


lemma place_node_None_Inr:
  assumes "fst (on_node g x y) = None" "place_node g x y req = Inr (n, g')"
  defines "g1 \<equiv> g\<lparr>nodes := nodes g @ [new_node req x y (length (nodes g))]\<rparr>"
  shows "(if nodes g = [] then g' = g1
          else set_connected g1 (id_previous req) (direction req) (int (length (nodes g))) = Inr g') \<and>
         n = nodes g' ! length (nodes g)"
proof (cases "nodes g = []")
  case True
  with assms show ?thesis by (auto simp: place_node_None Let_def)
next
  case False
  show ?thesis
  proof (cases "set_connected g1 (id_previous req) (direction req) (int (length (nodes g)))")
    case (Inl e)
    with assms False show ?thesis by (simp add: place_node_None Let_def)
  next
    case (Inr g2)
    with assms False show ?thesis by (auto simp: place_node_None Let_def)
  qed
qed

lemma place_node_Some_Inr:
  assumes "fst (on_node g x y) = Some m" "place_node g x y req = Inr (n, g')"
  shows "in_bounds (nodes g) (id_this m) \<and> g' = g\<lparr>nodes := merge_at g (nat (id_this m)) x y\<rparr> \<and>
         n = nodes g' ! nat (id_this m)"
  using assms by (auto simp: place_node_Some split: if_splits)

lemma place_object_create_Inr:
  assumes "fst (on_node g (object_x req) (object_y req)) = None \<or>
           (\<exists>m. fst (on_node g (object_x req) (object_y req)) = Some m \<and> \<not> object_here m)"
    and "place_object g id_origin req = Inr (n, g')"
  defines "g1 \<equiv> g\<lparr>nodes := nodes g @ [new_object req (length (nodes g))]\<rparr>"
  shows "set_connected g1 id_origin (object_direction req) (int (length (nodes g))) = Inr g' \<and>
         n = nodes g' ! length (nodes g)"
proof (cases "set_connected g1 id_origin (object_direction req) (int (length (nodes g)))")
  case (Inl e)
  with assms(2) place_object_create [OF assms(1), of id_origin] show ?thesis
    by (simp add: Let_def g1_def)
next
  case (Inr g2)
  with assms(2) place_object_create [OF assms(1), of id_origin] show ?thesis
    by (auto simp: Let_def g1_def)
qed

lemma place_object_reuse_Inr:
  assumes "fst (on_node g (object_x req) (object_y req)) = Some m" "object_here m"
    and "place_object g id_origin req = Inr (n, g')"
  defines "g1 \<equiv> g\<lparr>nodes := merge_at g (nat (id_this m)) (object_x req) (object_y req)\<rparr>"
  shows "in_bounds (nodes g) (id_this m) \<and>
         set_connected g1 id_origin (object_direction req) (id_this m) = Inr g' \<and>
         n = nodes g' ! nat (id_this m)"
proof (cases "in_bounds (nodes g) (id_this m)")
  case False
  with assms(3) place_object_reuse [OF assms(1,2), of id_origin] show ?thesis by simp
next
  case True
  show ?thesis
  proof (cases "set_connected g1 id_origin (object_direction req) (id_this m)")
    case (Inl e)
    with True assms(3) place_object_reuse [OF assms(1,2), of id_origin] show ?thesis
      by (simp add: g1_def)
  next
    case (Inr g2)
    with True assms(3) place_object_reuse [OF assms(1,2), of id_origin] show ?thesis
      by (auto simp: g1_def)
  qed
qed

lemma place_node_ids_dense:
  assumes "ids_dense g" "place_node g x y req = Inr (n, g')"
  shows "ids_dense g'"
proof (cases "fst (on_node g x y)")
  case None
  let ?g1 = "g\<lparr>nodes := nodes g @ [new_node req x y (length (nodes g))]\<rparr>"
  have g1: "ids_dense ?g1"
    using assms(1) by (intro ids_dense_append) (simp_all add: new_node_def init_node_def)
  from place_node_None_Inr [OF None assms(2)]
  have "map id_this (nodes g') = map id_this (nodes ?g1)"
    by (cases "nodes g = []") (auto dest: set_connected_ids)
  with g1 show ?thesis by (rule ids_dense_same)
next
  case (Some m)
  from place_node_Some_Inr [OF Some assms(2)]
  have "map id_this (nodes g') = map id_this (nodes g)"
    by (simp add: map_id_merge)
  with assms(1) show ?thesis by (rule ids_dense_same)
qed

lemma place_object_cases:
  obtains (create) "fst (on_node g (object_x req) (object_y req)) = None \<or>
           (\<exists>m. fst (on_node g (object_x req) (object_y req)) = Some m \<and> \<not> object_here m)"
  | (reuse) m where "fst (on_node g (object_x req) (object_y req)) = Some m" "object_here m"
  by (cases "fst (on_node g (object_x req) (object_y req))") auto

lemma place_object_ids_dense:
  assumes "ids_dense g" "place_object g id_origin req = Inr (n, g')"
  shows "ids_dense g'"
proof (cases g req rule: place_object_cases)
  case create
  let ?g1 = "g\<lparr>nodes := nodes g @ [new_object req (length (nodes g))]\<rparr>"
  have g1: "ids_dense ?g1"
    using assms(1) by (intro ids_dense_append) (simp_all add: new_object_def init_node_def)
  from place_object_create_Inr [OF create assms(2)]
  have "map id_this (nodes g') = map id_this (nodes ?g1)"
    by (auto dest: set_connected_ids)
  with g1 show ?thesis by (rule ids_dense_same)
next
  case (reuse m)
  let ?g1 = "g\<lparr>nodes := merge_at g (nat (id_this m)) (object_x req) (object_y req)\<rparr>"
  from place_object_reuse_Inr [OF reuse assms(2)]
  have "map id_this (nodes g') = map id_this (nodes ?g1)"
    by (auto dest: set_connected_ids)
  then have "map id_this (nodes g') = map id_this (nodes g)"
    by (simp add: map_id_merge)
  with assms(1) show ?thesis by (rule ids_dense_same)
qed

lemma ids_dense_Graph: "ids_dense (Graph thresh upd)"
  by (simp add: ids_dense_def Graph_def)

subsection \<open>Example states are reachable\<close>

lemma ex_one_step: "place_node (Graph 1 False) 0 0 ex_req = Inr (ex_node 0 0 0, ex_one)"
  by (simp add: place_node_def on_node_def Graph_def ex_req_def ex_node_def ex_one_def init_node_def
      default_node_def NAV_GRAPH_BLOCKED_def Let_def)

lemma ex_two_step: "place_node ex_one 5 0 ex_req = Inr (nodes ex_two ! 1, ex_two)"
  by (simp add: place_node_def on_node_def Graph_def ex_req_def ex_node_def ex_one_def ex_two_def
      init_node_def default_node_def NAV_GRAPH_BLOCKED_def sq_dist_def set_connected_def
      in_bounds_def dir_defs)

lemma ex_one_reachable: "reachable ex_one"
  using reachable.node [OF reachable.start ex_one_step] .

lemma ex_two_reachable: "reachable ex_two"
  using reachable.node [OF ex_one_reachable ex_two_step] .

subsection \<open>Identifiers are positions\<close>

text \<open>
  Claim C8. In every state reached from a new graph by \<^verbatim>\<open>place_node\<close> and
  \<^verbatim>\<open>place_object\<close>, the identifiers stored in the nodes are \<open>0, 1, \<dots>, n - 1\<close> in storage
  order: the node at index \<open>i\<close> has identifier \<open>i\<close>.
\<close>

theorem reachable_ids_dense:
  "reachable g \<Longrightarrow>
   ids_dense g \<and> (\<forall>i<length (nodes g). id_this (nodes g ! i) = int i)"
proof -
  assume "reachable g"
  then have "ids_dense g"
    by (induction rule: reachable.induct)
      (auto intro: ids_dense_Graph place_node_ids_dense place_object_ids_dense)
  then show ?thesis by (simp add: ids_dense_nth)
qed

theorem reachable_ids_dense_witness:
  "reachable ex_two \<and> ids_dense ex_two \<and> map id_this (nodes ex_two) = [0, 1]"
  using reachable_ids_dense [OF ex_two_reachable] ex_two_reachable
  by (simp add: ex_two_def ex_node_def)

subsection \<open>Placing an object\<close>

lemma connect_links:
  assumes "cardinal d" "a < length ns" "b < length ns"
  shows "link (connect_nodes ns a d b ! a) d = int b"
    and "link (connect_nodes ns a d b ! b) (opposite d) = int a"
  using assms cardinal_opposite [of d] by (simp_all add: link_connect_nodes)

lemma new_object_fields:
  "id_this (new_object req k) = int k" "object_here (new_object req k)"
  "node_x (new_object req k) = object_x req" "node_y (new_object req k) = object_y req"
  "id_north (new_object req k) = NAV_GRAPH_BLOCKED" "id_east (new_object req k) = NAV_GRAPH_BLOCKED"
  "id_south (new_object req k) = NAV_GRAPH_BLOCKED" "id_west (new_object req k) = NAV_GRAPH_BLOCKED"
  by (simp_all add: new_object_def init_node_def)

lemma on_node_Some_index:
  assumes "fst (on_node g x y) = Some m" "ids_dense g"
  shows "in_bounds (nodes g) (id_this m) \<and> m = nodes g ! nat (id_this m) \<and>
         first_nearest x y (nodes g) (nat (id_this m)) \<and>
         node_dist x y m < dist_thresh g * dist_thresh g"
proof -
  from assms(1) obtain k where k: "first_nearest x y (nodes g) k" "m = nodes g ! k"
    "node_dist x y (nodes g ! k) < dist_thresh g * dist_thresh g"
    unfolding on_node_Some by blast
  then have "k < length (nodes g)" by (simp add: first_nearest_def)
  with assms(2) k have "id_this m = int k" by (simp add: ids_dense_nth)
  with k \<open>k < length (nodes g)\<close> show ?thesis by simp
qed

text \<open>
  Claim C5. For a direction of the enum and an origin in the store (identifiers being
  positions, as in every reachable state), \<^verbatim>\<open>place_object\<close> returns normally. If no node
  lies within the threshold of the object position, or the nearest one is not an object
  node, the store is the old one with one node appended, created with all four links
  blocked and \<open>object_here\<close> set, and then connected; otherwise the nearby object node is
  reused. In every case the origin's link in the object direction is the identifier of
  the returned node, and that node's link in the opposite direction is the origin.
\<close>

theorem place_object_creates_and_connects:
  assumes dir: "cardinal (object_direction req)"
    and dense: "ids_dense g"
    and origin: "in_bounds (nodes g) id_origin"
  shows "\<exists>n g'. place_object g id_origin req = Inr (n, g') \<and>
           in_bounds (nodes g') (id_this n) \<and> n = nodes g' ! nat (id_this n) \<and>
           link (nodes g' ! nat id_origin) (object_direction req) = id_this n \<and>
           link n (opposite (object_direction req)) = id_origin \<and>
           (case fst (on_node g (object_x req) (object_y req)) of
              Some m \<Rightarrow>
                if object_here m
                then id_this n = id_this m \<and> length (nodes g') = length (nodes g)
                else nodes g' =
                       connect_nodes (nodes g @ [new_object req (length (nodes g))])
                         (nat id_origin) (object_direction req) (length (nodes g)) \<and>
                     id_this n = int (length (nodes g)) \<and> object_here n
            | None \<Rightarrow>
                nodes g' =
                  connect_nodes (nodes g @ [new_object req (length (nodes g))])
                    (nat id_origin) (object_direction req) (length (nodes g)) \<and>
                id_this n = int (length (nodes g)) \<and> object_here n) \<and>
           list_all (\<lambda>d. link (new_object req (length (nodes g))) d = NAV_GRAPH_BLOCKED)
             [North, East, South, West]"
proof -
  let ?d = "object_direction req"
  let ?N = "length (nodes g)"
  have blocked: "list_all (\<lambda>d. link (new_object req ?N) d = NAV_GRAPH_BLOCKED) [North, East, South, West]"
    by (simp add: link_def new_object_fields dir_defs)
  from origin have o: "nat id_origin < ?N" "int (nat id_origin) = id_origin"
    by (simp_all add: in_bounds_nat) (simp add: in_bounds_def)
  show ?thesis
  proof (cases g req rule: place_object_cases)
    case create
    let ?ns1 = "nodes g @ [new_object req ?N]"
    let ?ns2 = "connect_nodes ?ns1 (nat id_origin) ?d ?N"
    let ?g2 = "g\<lparr>nodes := ?ns2\<rparr>"
    have sc: "set_connected (g\<lparr>nodes := ?ns1\<rparr>) id_origin ?d (int ?N) = Inr ?g2"
      using set_connected_cardinal [OF dir, of "g\<lparr>nodes := ?ns1\<rparr>" id_origin "int ?N"] origin
      by (simp add: in_bounds_def)
    have res: "place_object g id_origin req = Inr (?ns2 ! ?N, ?g2)"
      using place_object_create [OF create, of id_origin] sc by (simp add: Let_def)
    have idn: "id_this (?ns2 ! ?N) = int ?N" "object_here (?ns2 ! ?N)"
      by (simp_all add: connect_nodes_fields new_object_fields)
    have l1: "link (?ns2 ! nat id_origin) ?d = int ?N"
      using o by (intro connect_links [OF dir]) simp_all
    have l2: "link (?ns2 ! ?N) (opposite ?d) = id_origin"
      using o connect_links(2) [OF dir, of "nat id_origin" ?ns1 ?N] by simp
    from create res idn l1 l2 blocked show ?thesis
      by (auto simp: in_bounds_def)
  next
    case (reuse m)
    from on_node_Some_index [OF reuse(1) dense]
    have m: "in_bounds (nodes g) (id_this m)" by simp
    then have k: "nat (id_this m) < ?N" "int (nat (id_this m)) = id_this m"
      by (simp_all add: in_bounds_nat) (simp add: in_bounds_def)
    let ?k = "nat (id_this m)"
    let ?ns1 = "merge_at g ?k (object_x req) (object_y req)"
    let ?ns2 = "connect_nodes ?ns1 (nat id_origin) ?d ?k"
    let ?g2 = "g\<lparr>nodes := ?ns2\<rparr>"
    have "id_this (nodes g ! ?k) = int ?k"
      using dense k by (simp add: ids_dense_nth)
    have sc: "set_connected (g\<lparr>nodes := ?ns1\<rparr>) id_origin ?d (id_this m) = Inr ?g2"
      using set_connected_cardinal [OF dir, of "g\<lparr>nodes := ?ns1\<rparr>" id_origin "id_this m"] origin m
      by (simp add: in_bounds_def)
    have res: "place_object g id_origin req = Inr (?ns2 ! ?k, ?g2)"
      using place_object_reuse [OF reuse, of id_origin] sc m by simp
    have idn: "id_this (?ns2 ! ?k) = id_this m"
      using k \<open>id_this (nodes g ! ?k) = int ?k\<close> by (simp add: connect_nodes_fields merge_at_fields)
    have l1: "link (?ns2 ! nat id_origin) ?d = id_this m"
      using o k connect_links(1) [OF dir, of "nat id_origin" ?ns1 ?k] by simp
    have l2: "link (?ns2 ! ?k) (opposite ?d) = id_origin"
      using o k connect_links(2) [OF dir, of "nat id_origin" ?ns1 ?k] by simp
    from reuse res idn l1 l2 blocked m show ?thesis
      by (auto simp: in_bounds_def)
  qed
qed


lemma ex_two_dense: "ids_dense ex_two"
  by (simp add: ids_dense_def ex_two_def ex_node_def)


theorem place_object_creates_and_connects_witness:
  "cardinal (object_direction ex_req) \<and> ids_dense ex_two \<and> in_bounds (nodes ex_two) 0 \<and>
   (\<exists>n g'. place_object ex_two 0 ex_req = Inr (n, g') \<and> id_this n = 2 \<and> object_here n \<and>
      length (nodes g') = 3 \<and> link (nodes g' ! 0) North = 2 \<and> link n South = 0)"
proof -
  have dir: "cardinal (object_direction ex_req)"
    by (simp add: cardinal_def ex_req_def dir_defs)
  have origin: "in_bounds (nodes ex_two) 0"
    by (simp add: in_bounds_def ex_two_def)
  have none: "fst (on_node ex_two (object_x ex_req) (object_y ex_req)) = None"
    by (simp add: on_node_def ex_two_def ex_req_def ex_node_def sq_dist_def Graph_def)
  have d: "object_direction ex_req = North" "opposite North = South"
    by (simp_all add: ex_req_def opposite_def dir_defs)
  have len: "length (nodes ex_two) = 2" by (simp add: ex_two_def)
  from place_object_creates_and_connects [OF dir ex_two_dense origin]
  obtain n g' where r: "place_object ex_two 0 ex_req = Inr (n, g')"
    "link (nodes g' ! nat 0) (object_direction ex_req) = id_this n"
    "link n (opposite (object_direction ex_req)) = 0"
    "nodes g' = connect_nodes (nodes ex_two @ [new_object ex_req (length (nodes ex_two))])
        (nat 0) (object_direction ex_req) (length (nodes ex_two))"
    "id_this n = int (length (nodes ex_two))" "object_here n"
    unfolding none by auto
  then have "place_object ex_two 0 ex_req = Inr (n, g') \<and> id_this n = 2 \<and> object_here n \<and>
      length (nodes g') = 3 \<and> link (nodes g' ! 0) North = 2 \<and> link n South = 0"
    by (simp add: d len)
  with dir ex_two_dense origin show ?thesis by blast
qed

subsection \<open>Smoothing of coordinates\<close>









lemmas ex_defs = ex_one_def ex_two_def ex_apart_def ex_smooth_def ex_front_def ex_three_def
  ex_with_object_def ex_node_def
  ex_req_def Graph_def





subsection \<open>Repeated reports\<close>


lemma sq_dist_same [simp]: "sq_dist x y x y = 0"
  by (simp add: sq_dist_def)








lemma new_node_coords [simp]:
  "node_x (new_node req x y k) = x" "node_y (new_node req x y k) = y"
  by (simp_all add: new_node_def)







lemma ex_one_again: "place_node ex_one 0 0 ex_req = Inr (ex_node 0 0 0, ex_one)"
  by (simp add: place_node_def on_node_def ex_defs sq_dist_def in_bounds_def update_position_def)


subsection \<open>Reciprocity of links\<close>

lemma cardinal_set: "set [North, East, South, West] = {d. cardinal d}"
  by (auto simp: cardinal_def)

lemma reciprocal_iff:
  "reciprocal g \<longleftrightarrow>
     (\<forall>a<length (nodes g). \<forall>b<length (nodes g). \<forall>d. cardinal d \<longrightarrow>
        (link (nodes g ! a) d = int b) = (link (nodes g ! b) (opposite d) = int a))"
  unfolding reciprocal_def list_all_iff cardinal_set by auto

lemma links_in_range_iff:
  "links_in_range g \<longleftrightarrow>
     (\<forall>a<length (nodes g). \<forall>d. cardinal d \<longrightarrow> link (nodes g ! a) d < int (length (nodes g)))"
  unfolding links_in_range_def list_all_iff cardinal_set by (auto simp: all_set_conv_all_nth)

lemma reciprocal_connect:
  assumes rec: "reciprocal g" and rng: "links_in_range g"
    and d0: "cardinal d0" and a0: "a0 < length (nodes g)" and b0: "b0 < length (nodes g)"
    and fa: "link (nodes g ! a0) d0 < 0 \<or> link (nodes g ! a0) d0 = int b0"
    and fb: "link (nodes g ! b0) (opposite d0) < 0 \<or> link (nodes g ! b0) (opposite d0) = int a0"
    and g': "nodes g' = connect_nodes (nodes g) a0 d0 b0"
  shows "reciprocal g' \<and> links_in_range g'"
proof -
  let ?ns = "nodes g"
  let ?N = "length ?ns"
  note od = cardinal_opposite [OF d0]
  have L: "link (nodes g' ! c) d =
      (if c = b0 \<and> d = opposite d0 then int a0
       else if c = a0 \<and> d = d0 then int b0 else link (?ns ! c) d)"
    if "c < ?N" "cardinal d" for c d
    unfolding g' using that d0 a0 b0 by (rule_tac link_connect_nodes) simp_all
  have R: "(link (?ns ! a) d = int b) = (link (?ns ! b) (opposite d) = int a)"
    if "a < ?N" "b < ?N" "cardinal d" for a b d
    using rec that unfolding reciprocal_iff by blast
  have len: "length (nodes g') = ?N" by (simp add: g')
  have "(link (nodes g' ! a) d = int b) = (link (nodes g' ! b) (opposite d) = int a)"
    if a: "a < ?N" and b: "b < ?N" and d: "cardinal d" for a b d
  proof -
    note odd = cardinal_opposite [OF d]
    have dd: "opposite d = opposite d0 \<longleftrightarrow> d = d0" using odd od by metis
    have dd': "opposite d = d0 \<longleftrightarrow> d = opposite d0" using odd od by metis
    consider (i) "a = b0" "d = opposite d0" | (ii) "a = a0" "d = d0"
      | (iii) "\<not> (a = b0 \<and> d = opposite d0)" "\<not> (a = a0 \<and> d = d0)" by blast
    then show ?thesis
    proof cases
      case i
      show ?thesis
      proof (cases "b = a0")
        case True
        with i a b d odd od show ?thesis by (simp add: L)
      next
        case False
        from R [OF b b0 d0] fb False have "link (?ns ! b) d0 \<noteq> int b0" by auto
        with i a b d odd od False show ?thesis by (simp add: L)
      qed
    next
      case ii
      show ?thesis
      proof (cases "b = b0")
        case True
        with ii a b d odd od show ?thesis by (simp add: L)
      next
        case False
        from R [OF a0 b d0] fa False have "link (?ns ! b) (opposite d0) \<noteq> int a0" by auto
        with ii a b d odd od False show ?thesis by (simp add: L)
      qed
    next
      case iii
      have la: "link (nodes g' ! a) d = link (?ns ! a) d"
        using iii L [OF a d] by auto
      consider (x) "b = b0" "d = d0" | (y) "b = a0" "d = opposite d0"
        | (z) "\<not> (b = b0 \<and> d = d0)" "\<not> (b = a0 \<and> d = opposite d0)" by blast
      then show ?thesis
      proof cases
        case x
        with iii have "a \<noteq> a0" by simp
        moreover from R [OF a b0 d0] fb \<open>a \<noteq> a0\<close> have "link (?ns ! a) d0 \<noteq> int b0" by auto
        ultimately show ?thesis using x a b d odd od la by (simp add: L)
      next
        case y
        with iii have "a \<noteq> b0" by simp
        moreover from R [OF a0 a d0] fa \<open>a \<noteq> b0\<close> have "link (?ns ! a) (opposite d0) \<noteq> int a0"
          by auto
        ultimately show ?thesis using y a b d odd od la by (simp add: L)
      next
        case z
        then have "link (nodes g' ! b) (opposite d) = link (?ns ! b) (opposite d)"
          using L [OF b conjunct1 [OF odd]] dd dd' by auto
        with la R [OF a b d] show ?thesis by simp
      qed
    qed
  qed
  then have "reciprocal g'" unfolding reciprocal_iff len by blast
  moreover have "link (nodes g' ! a) d < int ?N" if "a < ?N" "cardinal d" for a d
    using rng that a0 b0 unfolding links_in_range_iff by (simp add: L)
  then have "links_in_range g'" unfolding links_in_range_iff len by blast
  ultimately show ?thesis ..
qed

lemma reciprocal_append:
  assumes rec: "reciprocal g" and rng: "links_in_range g"
    and neg: "\<forall>d. link n d < 0" and g': "nodes g' = nodes g @ [n]"
  shows "reciprocal g' \<and> links_in_range g'"
proof -
  let ?N = "length (nodes g)"
  have old: "link ((nodes g @ [n]) ! a) d < int ?N" if "a < Suc ?N" "cardinal d" for a d
  proof (cases "a < ?N")
    case True
    with rng that show ?thesis unfolding links_in_range_iff by (simp add: nth_append)
  next
    case False
    with that have "a = ?N" by simp
    with neg [rule_format, of d] show ?thesis by simp
  qed
  have "(link ((nodes g @ [n]) ! a) d = int b) = (link ((nodes g @ [n]) ! b) (opposite d) = int a)"
    if a: "a < Suc ?N" and b: "b < Suc ?N" and d: "cardinal d" for a b d
  proof (cases "a < ?N \<and> b < ?N")
    case True
    with rec d show ?thesis unfolding reciprocal_iff by (simp add: nth_append)
  next
    case False
    with a b have "a = ?N \<or> b = ?N" by auto
    with old [OF a d] old [OF b conjunct1 [OF cardinal_opposite [OF d]]]
      neg [rule_format, of d] neg [rule_format, of "opposite d"] a b
    show ?thesis by (auto simp: nth_append)
  qed
  then have "reciprocal g'" unfolding reciprocal_iff g' by simp
  moreover have "link ((nodes g @ [n]) ! a) d < int (Suc ?N)" if "a < Suc ?N" "cardinal d" for a d
    using old [OF that] by simp
  then have "links_in_range g'" unfolding links_in_range_iff g' by simp
  ultimately show ?thesis ..
qed

lemma reciprocal_same_links:
  assumes "reciprocal g" "links_in_range g" "length (nodes g') = length (nodes g)"
    and "\<forall>i<length (nodes g). \<forall>d. link (nodes g' ! i) d = link (nodes g ! i) d"
  shows "reciprocal g' \<and> links_in_range g'"
  using assms unfolding reciprocal_iff links_in_range_iff by simp

lemma new_links_negative:
  "link (new_node req x y k) d < 0" "link (new_object req k) d < 0"
  by (simp_all add: link_def new_node_def new_object_def init_node_def NAV_GRAPH_BLOCKED_def
      NAV_GRAPH_UNKNOWN_def)

lemma reciprocal_set_connected:
  assumes rec: "reciprocal g" and rng: "links_in_range g"
    and sc: "set_connected g a d b = Inr g'"
    and fa: "slot_free g a d b" and fb: "slot_free g b (opposite d) a"
  shows "reciprocal g' \<and> links_in_range g'"
proof (cases "cardinal d")
  case True
  from set_connected_Inr [OF sc] have ab: "in_bounds (nodes g) a" "in_bounds (nodes g) b"
    by simp_all
  then have n: "nat a < length (nodes g)" "nat b < length (nodes g)" "int (nat a) = a"
    "int (nat b) = b"
    by (simp_all add: in_bounds_nat) (simp_all add: in_bounds_def)
  from set_connected_result [OF sc] True
  have g': "nodes g' = connect_nodes (nodes g) (nat a) d (nat b)" by simp
  from fa fb ab n
  have "link (nodes g ! nat a) d < 0 \<or> link (nodes g ! nat a) d = int (nat b)"
    "link (nodes g ! nat b) (opposite d) < 0 \<or> link (nodes g ! nat b) (opposite d) = int (nat a)"
    by (simp_all add: slot_free_def)
  from reciprocal_connect [OF rec rng True n(1,2) this g'] show ?thesis .
next
  case False
  with set_connected_result [OF sc] rec rng show ?thesis by simp
qed

lemma slot_free_append:
  assumes "slot_free g a d t" "\<forall>d. link n d < 0"
  shows "slot_free (g\<lparr>nodes := nodes g @ [n]\<rparr>) a d t"
proof (cases "in_bounds (nodes g) a")
  case True
  then have "nat a < length (nodes g)" by (rule in_bounds_nat)
  with assms(1) True show ?thesis by (simp add: slot_free_def nth_append)
next
  case False
  show ?thesis
    unfolding slot_free_def
  proof
    assume "in_bounds (nodes (g\<lparr>nodes := nodes g @ [n]\<rparr>)) a"
    with False have "nat a = length (nodes g)" unfolding in_bounds_def by simp
    with assms(2) show "link (nodes (g\<lparr>nodes := nodes g @ [n]\<rparr>) ! nat a) d < 0 \<or>
        link (nodes (g\<lparr>nodes := nodes g @ [n]\<rparr>) ! nat a) d = t"
      by simp
  qed
qed

lemma slot_free_new:
  assumes "\<forall>d. link n d < 0"
  shows "slot_free (g\<lparr>nodes := nodes g @ [n]\<rparr>) (int (length (nodes g))) d t"
  using assms by (simp add: slot_free_def)

lemma slot_free_merge_at:
  "slot_free (g\<lparr>nodes := merge_at g k x y\<rparr>) a d t = slot_free g a d t"
  by (simp add: slot_free_def in_bounds_def link_merge_at)

lemma place_node_reciprocal:
  assumes rec: "reciprocal g" and rng: "links_in_range g"
    and free: "slot_free g (id_previous req) (direction req) (int (length (nodes g)))"
    and res: "place_node g x y req = Inr (n, g')"
  shows "reciprocal g' \<and> links_in_range g'"
proof (cases "fst (on_node g x y)")
  case None
  let ?new = "new_node req x y (length (nodes g))"
  let ?g1 = "g\<lparr>nodes := nodes g @ [?new]\<rparr>"
  have neg: "\<forall>d. link ?new d < 0" by (simp add: new_links_negative)
  from reciprocal_append [OF rec rng neg, of ?g1]
  have g1: "reciprocal ?g1" "links_in_range ?g1" by simp_all
  show ?thesis
  proof (cases "nodes g = []")
    case True
    with place_node_None_Inr [OF None res] g1 show ?thesis by simp
  next
    case False
    with place_node_None_Inr [OF None res]
    have sc: "set_connected ?g1 (id_previous req) (direction req) (int (length (nodes g))) = Inr g'"
      by simp
    from reciprocal_set_connected [OF g1 sc slot_free_append [OF free neg] slot_free_new [OF neg]]
    show ?thesis .
  qed
next
  case (Some m)
  from place_node_Some_Inr [OF Some res]
  have "nodes g' = merge_at g (nat (id_this m)) x y" by simp
  with reciprocal_same_links [OF rec rng, of g'] show ?thesis
    by (simp add: link_merge_at)
qed

lemma place_object_reciprocal:
  assumes rec: "reciprocal g" and rng: "links_in_range g"
    and fa: "slot_free g id_origin (object_direction req) (object_target g req)"
    and fb: "slot_free g (object_target g req) (opposite (object_direction req)) id_origin"
    and res: "place_object g id_origin req = Inr (n, g')"
  shows "reciprocal g' \<and> links_in_range g'"
proof (cases g req rule: place_object_cases)
  case create
  let ?new = "new_object req (length (nodes g))"
  let ?g1 = "g\<lparr>nodes := nodes g @ [?new]\<rparr>"
  have neg: "\<forall>d. link ?new d < 0" by (simp add: new_links_negative)
  from create have t: "object_target g req = int (length (nodes g))"
    by (auto simp: object_target_def)
  from reciprocal_append [OF rec rng neg, of ?g1]
  have g1: "reciprocal ?g1" "links_in_range ?g1" by simp_all
  from place_object_create_Inr [OF create res]
  have sc: "set_connected ?g1 id_origin (object_direction req) (int (length (nodes g))) = Inr g'"
    by simp
  from fa t have fa': "slot_free g id_origin (object_direction req) (int (length (nodes g)))"
    by simp
  from reciprocal_set_connected [OF g1 sc slot_free_append [OF fa' neg] slot_free_new [OF neg]]
  show ?thesis .
next
  case (reuse m)
  let ?g1 = "g\<lparr>nodes := merge_at g (nat (id_this m)) (object_x req) (object_y req)\<rparr>"
  from reuse have t: "object_target g req = id_this m"
    by (simp add: object_target_def)
  from reciprocal_same_links [OF rec rng, of ?g1]
  have g1: "reciprocal ?g1" "links_in_range ?g1" by (simp_all add: link_merge_at)
  from place_object_reuse_Inr [OF reuse res]
  have sc: "set_connected ?g1 id_origin (object_direction req) (id_this m) = Inr g'"
    by simp
  from fa fb t have "slot_free ?g1 id_origin (object_direction req) (id_this m)"
    "slot_free ?g1 (id_this m) (opposite (object_direction req)) id_origin"
    by (simp_all add: slot_free_merge_at)
  from reciprocal_set_connected [OF g1 sc this] show ?thesis .
qed

lemma reachable_no_overwrite_invariant:
  "reachable_no_overwrite g \<Longrightarrow> reciprocal g \<and> links_in_range g"
proof (induction rule: reachable_no_overwrite.induct)
  case (start thresh upd)
  show ?case by (simp add: reciprocal_def links_in_range_def Graph_def)
next
  case (node g req x y n g')
  from node.IH have "reciprocal g" "links_in_range g" by simp_all
  from place_node_reciprocal [OF this node.hyps(2,3)] show ?case .
next
  case (object g id_origin req n g')
  from object.IH have "reciprocal g" "links_in_range g" by simp_all
  from place_object_reciprocal [OF this object.hyps(2,3,4)] show ?case .
qed

lemma ex_three_step: "place_node ex_two 10 0 ex_req = Inr (nodes ex_three ! 2, ex_three)"
  by (simp add: place_node_def on_node_def ex_defs init_node_def default_node_def
      NAV_GRAPH_BLOCKED_def sq_dist_def set_connected_def in_bounds_def dir_defs)

lemma ex_with_object_step:
  "place_object ex_two 0 ex_req = Inr (nodes ex_with_object ! 2, ex_with_object)"
  by (simp add: place_object_def on_node_def ex_defs init_node_def default_node_def
      NAV_GRAPH_BLOCKED_def sq_dist_def set_connected_def in_bounds_def dir_defs)

text \<open>
  Claim C3, as stated, makes reciprocity an invariant of every reachable state. Three
  calls of \<^verbatim>\<open>place_node\<close> reach a state where it fails: the second and the third node are
  both placed to the east of node 0. The third call overwrites the east link of node 0,
  and the west link of node 1 still points to node 0.
\<close>

theorem reciprocity_overwrite_counterexample:
  "reachable ex_three \<and> \<not> reciprocal ex_three \<and>
   link (nodes ex_three ! 1) West = 0 \<and> opposite West = East \<and> link (nodes ex_three ! 0) East \<noteq> 1"
proof -
  have "reachable ex_three"
    using reachable.node [OF ex_two_reachable ex_three_step] .
  moreover have "\<not> reciprocal ex_three"
    by (simp add: reciprocal_def ex_defs link_def opposite_def dir_defs)
  ultimately show ?thesis
    by (simp add: ex_defs link_def opposite_def dir_defs)
qed

text \<open>
  Claim C3, amended. Reciprocity holds in every state reached from a new graph by
  placements whose connection writes only link slots that are unknown or blocked, or
  that already hold the value written: for all stored nodes \<open>a\<close>, \<open>b\<close> and every direction
  of the enum, the link of \<open>a\<close> in the direction is \<open>b\<close> exactly when the link of \<open>b\<close> in the
  opposite direction is \<open>a\<close>.
\<close>

theorem no_overwrite_reciprocal:
  "reachable_no_overwrite g \<Longrightarrow>
   reciprocal g \<and>
   (\<forall>a<length (nodes g). \<forall>b<length (nodes g). \<forall>d. cardinal d \<longrightarrow>
      (link (nodes g ! a) d = int b) = (link (nodes g ! b) (opposite d) = int a))"
  using reachable_no_overwrite_invariant [of g] reciprocal_iff [of g] by blast

theorem no_overwrite_reciprocal_witness:
  "reachable_no_overwrite ex_with_object \<and> reciprocal ex_with_object \<and>
   link (nodes ex_with_object ! 0) North = 2 \<and> link (nodes ex_with_object ! 2) South = 0"
proof -
  have one: "reachable_no_overwrite ex_one"
    by (rule reachable_no_overwrite.node [OF reachable_no_overwrite.start _ ex_one_step])
      (simp add: slot_free_def in_bounds_def Graph_def)
  have two: "reachable_no_overwrite ex_two"
    by (rule reachable_no_overwrite.node [OF one _ ex_two_step])
      (simp add: slot_free_def in_bounds_def ex_defs link_def dir_defs)
  have t: "object_target ex_two ex_req = 2"
    by (simp add: object_target_def on_node_def ex_defs sq_dist_def)
  have obj: "reachable_no_overwrite ex_with_object"
    by (rule reachable_no_overwrite.object [OF two _ _ ex_with_object_step])
      (simp_all add: t, simp_all add: slot_free_def in_bounds_def ex_defs link_def dir_defs)
  from no_overwrite_reciprocal [OF obj] obj show ?thesis
    by (simp add: ex_defs link_def dir_defs)
qed

subsection \<open>Queries leave the store alone\<close>



lemma dist_less_irrefl [simp]: "\<not> dist_less d d"
  by (cases d) simp_all


















end
